theory Spec2Isabelle
  imports Complex_Main
begin

section \<open>Data model\<close>

text \<open>
  The timeline engine of the repository, embedded from \<^verbatim>\<open>js/timeline/TrackDuplicator.js\<close>,
  \<^verbatim>\<open>js/timeline/TimelineCore.js\<close>, \<^verbatim>\<open>js/timeline/Controls.js\<close>,
  \<^verbatim>\<open>js/timeline/SliderController.js\<close> and \<^verbatim>\<open>js/master.js\<close>.

  A JavaScript number is a rational (\<^typ>\<open>rat\<close>): every finite double is one. The
  operations \<open>animate\<close>, \<open>controls_tick\<close>, \<open>frame\<close>, \<open>fractionToPosition\<close> and
  \<open>onInput\<close> compute with exact arithmetic; the section on binary64 rounding gives the
  same operations with every result of \<open>+\<close>, \<open>-\<close>, \<open>*\<close> and \<open>/\<close> rounded as the
  source rounds it, and the exact operations are their instance for the identity.
  \<open>Infinity\<close>, used as the initial best distance of the nearest-card scan, is the value
  \<open>None\<close> of an option. Array indices are \<^typ>\<open>nat\<close>; an index argument coming from a
  caller is an \<^typ>\<open>int\<close> (it may be negative or too large).
\<close>

text \<open>
  An element of the document as the duplicator sees it: whether it carries the class
  \<open>card\<close>, its \<open>id\<close> attribute and its child elements. A card may contain cards.
\<close>

datatype element = Element (is_card: bool) (elem_id: string) (child_nodes: "element list")

text \<open>A card element as the engine keeps it: its \<open>id\<close> attribute and its markup.\<close>

record card =
  card_id :: string
  card_html :: string

text \<open>A card after layout: the element together with its measured \<open>offsetTop\<close>.\<close>

record placed_card = card +
  offsetTop :: rat

text \<open>The track element as \<open>computeOffsetsNow\<close> reads it.\<close>

record track =
  track_cards :: "placed_card list"
  scrollHeight :: rat

text \<open>
  The fields of a \<open>TimelineCore\<close> instance. \<open>transform\<close> is the \<open>translateY\<close> value last
  written to the style of the track (\<open>None\<close> before the first write) and \<open>raf_requests\<close>
  counts the calls of \<open>requestAnimationFrame(this._boundAnimate)\<close>.
\<close>

record timeline_core =
  posY :: rat
  autoScroll :: bool
  BASE_SPEED :: rat
  cards :: "placed_card list"
  offsets :: "rat list"
  originalCount :: nat
  halfTrackHeight :: rat
  running :: bool
  transform :: "rat option"
  raf_requests :: nat

section \<open>TrackDuplicator\<close>

text \<open>
  The track is given by the list of its child elements. \<open>querySelectorAll(".card")\<close>
  returns the descendants of the track that are cards, in document order: an element
  comes before the elements it contains.
\<close>

fun select_cards :: "element \<Rightarrow> element list" where
  "select_cards (Element c i ks) =
     (if c then [Element c i ks] else []) @ concat (map select_cards ks)"

definition querySelectorAll_card :: "element list \<Rightarrow> element list" where
  "querySelectorAll_card track = concat (map select_cards track)"

text \<open>\<open>cloneNode(true)\<close>: a deep copy, with the id and the children of the original.\<close>

definition cloneNode :: "element \<Rightarrow> element" where
  "cloneNode c = c"

text \<open>The loop of \<open>isAlreadyDuplicated\<close>: \<open>for (let i = 0; i < half; i++)\<close>.\<close>

function ids_match_from :: "element list \<Rightarrow> nat \<Rightarrow> nat \<Rightarrow> bool" where
  "ids_match_from all half i =
     (if i < half
      then (if elem_id (all ! i) \<noteq> elem_id (all ! (i + half)) then False
            else ids_match_from all half (i + 1))
      else True)"
  by pat_completeness auto
termination
  by (relation "measure (\<lambda>(all, half, i). half - i)") auto

declare ids_match_from.simps [simp del]

definition isAlreadyDuplicated :: "element list \<Rightarrow> bool" where
  "isAlreadyDuplicated track =
     (let all = querySelectorAll_card track in
      if length all < 2 then False
      else if length all mod 2 \<noteq> 0 then False
      else ids_match_from all (length all div 2) 0)"

text \<open>
  \<open>duplicate\<close> maps the children of the track before the call to its children after it:
  \<open>appendChild\<close> puts the clone of every selected card, in the order of the selection,
  behind the last child of the track.
\<close>

definition duplicate :: "element list \<Rightarrow> element list" where
  "duplicate track =
     (let all = querySelectorAll_card track in
      if length all = 0 then track
      else if isAlreadyDuplicated track then track
      else track @ map cloneNode all)"

definition duplicator_originalCount :: "element list \<Rightarrow> nat" where
  "duplicator_originalCount track =
     (let all = querySelectorAll_card track in
      if isAlreadyDuplicated track then length all div 2 else length all)"

text \<open>A track in which no card lies inside another card.\<close>

definition no_nested_cards :: "element list \<Rightarrow> bool" where
  "no_nested_cards track \<longleftrightarrow>
     (\<forall>c \<in> set (querySelectorAll_card track). querySelectorAll_card (child_nodes c) = [])"

section \<open>TimelineCore\<close>

text \<open>The constructor: the state of a new instance.\<close>

definition new_core :: timeline_core where
  "new_core =
     \<lparr>posY = 0, autoScroll = True, BASE_SPEED = 3 / 4, cards = [], offsets = [],
      originalCount = 0, halfTrackHeight = 0, running = False, transform = None,
      raf_requests = 0\<rparr>"

text \<open>\<open>Math.round\<close>: the nearest integer, a half rounded up.\<close>

definition js_round :: "rat \<Rightarrow> rat" where
  "js_round x = of_int \<lfloor>x + 1 / 2\<rfloor>"

text \<open>
  \<open>computeOffsetsNow\<close> reads the cards of the track and its scroll height.
  \<open>this.originalCount || all.length\<close> takes the length of the track when the count is
  \<open>0\<close>; \<open>all.slice(0, firstCount)\<close> is \<^const>\<open>take\<close>; \<open>this.cards[0]?.offsetTop || 0\<close>
  is \<open>0\<close> when there is no first card.
\<close>

definition computeOffsetsNow :: "track \<Rightarrow> timeline_core \<Rightarrow> timeline_core" where
  "computeOffsetsNow tr st =
     (let all = track_cards tr in
      if length all = 0
      then st\<lparr>offsets := [], originalCount := 0, cards := [],
              halfTrackHeight := js_round (scrollHeight tr / 2)\<rparr>
      else
        let firstCount = (if originalCount st \<noteq> 0 then originalCount st else length all);
            cs = take firstCount all;
            firstTop = (case cs of [] \<Rightarrow> 0 | c # _ \<Rightarrow> offsetTop c);
            offs = map (\<lambda>c. offsetTop c - firstTop) cs
        in st\<lparr>cards := cs, offsets := offs,
               halfTrackHeight := js_round (scrollHeight tr / 2)\<rparr>)"

text \<open>
  The scan of \<open>nearestCardIndex\<close>: \<open>best\<close> starts as \<open>Infinity\<close> (\<open>None\<close>), and \<open>d < best\<close>
  holds of every finite \<open>d\<close> then.
\<close>

function nearest_loop :: "rat list \<Rightarrow> rat \<Rightarrow> nat \<Rightarrow> nat \<Rightarrow> rat option \<Rightarrow> nat" where
  "nearest_loop offs dis i nearest best =
     (if i < length offs
      then (let d = \<bar>dis - offs ! i\<bar> in
            if (case best of None \<Rightarrow> True | Some b \<Rightarrow> d < b)
            then nearest_loop offs dis (i + 1) i (Some d)
            else nearest_loop offs dis (i + 1) nearest best)
      else nearest)"
  by pat_completeness auto
termination
  by (relation "measure (\<lambda>(offs, dis, i, nearest, best). length offs - i)") auto

declare nearest_loop.simps [simp del]

definition nearestCardIndex :: "timeline_core \<Rightarrow> nat" where
  "nearestCardIndex st =
     (if length (offsets st) = 0 then 0
      else nearest_loop (offsets st) \<bar>posY st\<bar> 0 0 None)"

definition applyTransform :: "timeline_core \<Rightarrow> timeline_core" where
  "applyTransform st = st\<lparr>transform := Some (posY st)\<rparr>"

text \<open>
  The two normalising loops of \<open>jumpToIndex\<close>:
  \<open>while (h > 0 && val < -h) val += h\<close> and \<open>while (h > 0 && val > 0) val -= h\<close>.
\<close>

function wrap_below :: "rat \<Rightarrow> rat \<Rightarrow> rat" where
  "wrap_below h val = (if h > 0 \<and> val < - h then wrap_below h (val + h) else val)"
  by pat_completeness auto
termination
proof (relation "measure (\<lambda>(h, val). nat \<lceil>- val / h\<rceil>)")
  show "wf (measure (\<lambda>(h, val). nat \<lceil>- val / h\<rceil>))" by simp
next
  fix h val :: rat
  assume a: "0 < h \<and> val < - h"
  then have step: "- (val + h) / h = - val / h - 1"
    by (simp add: field_simps)
  from a have "1 < - val / h" by (simp add: field_simps)
  then have "1 \<le> \<lceil>- val / h\<rceil>" by linarith
  then have "nat (\<lceil>- val / h\<rceil> - 1) < nat \<lceil>- val / h\<rceil>" by linarith
  then have "nat \<lceil>- (val + h) / h\<rceil> < nat \<lceil>- val / h\<rceil>"
    unfolding step by simp
  then show "((h, val + h), (h, val)) \<in> measure (\<lambda>(h, val). nat \<lceil>- val / h\<rceil>)"
    unfolding in_measure prod.case .
qed

declare wrap_below.simps [simp del]

function wrap_above :: "rat \<Rightarrow> rat \<Rightarrow> rat" where
  "wrap_above h val = (if h > 0 \<and> val > 0 then wrap_above h (val - h) else val)"
  by pat_completeness auto
termination
proof (relation "measure (\<lambda>(h, val). nat \<lceil>val / h\<rceil>)")
  show "wf (measure (\<lambda>(h, val). nat \<lceil>val / h\<rceil>))" by simp
next
  fix h val :: rat
  assume a: "0 < h \<and> 0 < val"
  then have step: "(val - h) / h = val / h - 1"
    by (simp add: field_simps)
  from a have "0 < val / h" by simp
  then have "1 \<le> \<lceil>val / h\<rceil>" by linarith
  then have "nat (\<lceil>val / h\<rceil> - 1) < nat \<lceil>val / h\<rceil>" by linarith
  then have "nat \<lceil>(val - h) / h\<rceil> < nat \<lceil>val / h\<rceil>"
    unfolding step by simp
  then show "((h, val - h), (h, val)) \<in> measure (\<lambda>(h, val). nat \<lceil>val / h\<rceil>)"
    unfolding in_measure prod.case .
qed

declare wrap_above.simps [simp del]

text \<open>\<open>Math.max(0, Math.min(n - 1, idx))\<close> on an array of length \<open>n\<close>.\<close>

definition clamp_index :: "nat \<Rightarrow> int \<Rightarrow> nat" where
  "clamp_index n idx = nat (max 0 (min (int n - 1) idx))"

definition jumpToIndex :: "int \<Rightarrow> timeline_core \<Rightarrow> timeline_core" where
  "jumpToIndex idx st =
     (if length (offsets st) = 0 then st
      else
        let i = clamp_index (length (offsets st)) idx;
            desired = - (offsets st ! i);
            val = wrap_below (halfTrackHeight st) desired;
            val' = wrap_above (halfTrackHeight st) val
        in applyTransform (st\<lparr>posY := val'\<rparr>))"

definition posYForIndex :: "int \<Rightarrow> timeline_core \<Rightarrow> rat" where
  "posYForIndex i st =
     (if length (offsets st) = 0 then 0
      else - (offsets st ! clamp_index (length (offsets st)) i))"

definition setAutoScroll :: "bool \<Rightarrow> timeline_core \<Rightarrow> timeline_core" where
  "setAutoScroll enabled st = st\<lparr>autoScroll := enabled\<rparr>"

text \<open>
  The frame callback \<open>_animate\<close>: advance, wrap (two \<open>if\<close>s in sequence, the second reading
  the position the first wrote), write the transform, request the next frame.
\<close>

definition animate :: "timeline_core \<Rightarrow> timeline_core" where
  "animate st =
     (if running st
      then
        let st1 = (if autoScroll st then st\<lparr>posY := posY st - BASE_SPEED st\<rparr> else st);
            st2 = (if halfTrackHeight st1 > 0
                   then
                     let a = (if posY st1 \<le> - halfTrackHeight st1
                              then st1\<lparr>posY := posY st1 + halfTrackHeight st1\<rparr> else st1);
                         b = (if posY a > 0
                              then a\<lparr>posY := posY a - halfTrackHeight a\<rparr> else a)
                     in b
                   else st1);
            st3 = applyTransform st2
        in st3\<lparr>raf_requests := raf_requests st3 + 1\<rparr>
      else st)"

definition start :: "track \<Rightarrow> timeline_core \<Rightarrow> timeline_core" where
  "start tr st =
     (if running st then st
      else
        let st1 = st\<lparr>running := True\<rparr>;
            st2 = computeOffsetsNow tr st1;
            st3 = applyTransform st2
        in st3\<lparr>raf_requests := raf_requests st3 + 1\<rparr>)"

definition stop :: "timeline_core \<Rightarrow> timeline_core" where
  "stop st = st\<lparr>running := False\<rparr>"

section \<open>Controls: the press-and-hold arrows\<close>

text \<open>
  The frame callback \<open>tick\<close> of \<open>Controls.bind\<close>, with the current \<open>arrowSpeed\<close> of the
  controls as an argument. \<open>bootstrap.js\<close> binds the controls before it starts the core,
  so in every frame \<open>tick\<close> runs before \<open>_animate\<close>.
\<close>

definition controls_tick :: "rat \<Rightarrow> timeline_core \<Rightarrow> timeline_core" where
  "controls_tick arrowSpeed st =
     (if arrowSpeed \<noteq> 0
      then setAutoScroll False (st\<lparr>posY := posY st + arrowSpeed\<rparr>)
      else st)"

definition frame :: "rat \<Rightarrow> timeline_core \<Rightarrow> timeline_core" where
  "frame arrowSpeed st = animate (controls_tick arrowSpeed st)"

text \<open>A run of frames, one arrow speed for each.\<close>

fun run_frames :: "rat list \<Rightarrow> timeline_core \<Rightarrow> timeline_core" where
  "run_frames [] st = st"
| "run_frames (a # as) st = run_frames as (frame a st)"

section \<open>The slider: position to fractional index and back\<close>





text \<open>
  The interpolation of the slider's input handler (\<open>_onInput\<close> of \<open>SliderController.js\<close>
  and the \<open>input\<close> listener of \<open>master.js\<close>), from the fractional index \<open>fr\<close> to the
  position it writes. Reading \<open>offsets[iL]\<close> outside the array gives \<open>undefined\<close> and a
  position that is not a number: \<open>None\<close>.
\<close>

definition fractionToPosition :: "rat list \<Rightarrow> rat \<Rightarrow> rat option" where
  "fractionToPosition offs fr =
     (let iL = \<lfloor>fr\<rfloor>;
          iU = min (int (length offs) - 1) (iL + 1);
          t = fr - of_int iL
      in if 0 \<le> iL \<and> iL < int (length offs)
         then Some (- (offs ! nat iL + (offs ! nat iU - offs ! nat iL) * t))
         else None)"

text \<open>
  \<open>_onInput\<close> with the value \<open>val\<close> of the range input; \<open>None\<close> when the position would
  not be a number.
\<close>

definition onInput :: "rat \<Rightarrow> timeline_core \<Rightarrow> timeline_core option" where
  "onInput val st =
     (if length (offsets st) = 0 then Some st
      else
        let fr = (1 - val / 100) * (of_nat (length (offsets st)) - 1) in
        map_option (\<lambda>p. setAutoScroll False (applyTransform (st\<lparr>posY := p\<rparr>)))
          (fractionToPosition (offsets st) fr))"

section \<open>Binary64 rounding\<close>

text \<open>
  The numbers of the source are IEEE 754 binary64 values, and the result of every \<open>+\<close>,
  \<open>-\<close>, \<open>*\<close> and \<open>/\<close> is rounded to the nearest of them, a tie to the even significand.
  \<open>fl64\<close> is that rounding on the rationals: 53 significant bits, the least exponent
  \<open>-1022\<close> (below it the spacing stays \<open>2^-1074\<close>). Overflow to \<open>Infinity\<close> is not
  modelled; it starts at \<open>2^1024\<close>.
\<close>

text \<open>The number of binary digits of a positive integer.\<close>

function bitlen :: "int \<Rightarrow> int" where
  "bitlen n = (if n \<le> 0 then 0 else 1 + bitlen (n div 2))"
  by pat_completeness auto
termination
  by (relation "measure nat") auto

declare bitlen.simps [simp del]

definition pow2 :: "int \<Rightarrow> rat" where
  "pow2 e = (if 0 \<le> e then 2 ^ nat e else 1 / 2 ^ nat (- e))"

text \<open>
  The binary exponent of a positive rational \<open>x\<close>, the \<open>e\<close> with \<open>2^e \<le> x < 2^(e+1)\<close>: the
  difference of the digit counts of numerator and denominator, or one less.
\<close>

definition ilog2 :: "rat \<Rightarrow> int" where
  "ilog2 x =
     (let (p, q) = quotient_of x;
          k = bitlen p - bitlen q
      in if pow2 k \<le> x then k else k - 1)"

definition round_half_even :: "rat \<Rightarrow> int" where
  "round_half_even x =
     (let f = \<lfloor>x\<rfloor>; d = x - of_int f in
      if d < 1 / 2 then f
      else if 1 / 2 < d then f + 1
      else if even f then f else f + 1)"

definition fl64 :: "rat \<Rightarrow> rat" where
  "fl64 x =
     (if x = 0 then 0
      else
        let e = max (ilog2 \<bar>x\<bar>) (- 1022);
            q = pow2 (e - 52)
        in of_int (round_half_even (x / q)) * q)"

text \<open>
  The frame callback, the tick of the controls and the input handler of the slider once
  more, with the rounding \<open>rnd\<close> applied to the result of every arithmetic operation of
  the source. Negation, comparison and \<open>Math.floor\<close> are exact.
\<close>

definition animate_rnd :: "(rat \<Rightarrow> rat) \<Rightarrow> timeline_core \<Rightarrow> timeline_core" where
  "animate_rnd rnd st =
     (if running st
      then
        let st1 = (if autoScroll st then st\<lparr>posY := rnd (posY st - BASE_SPEED st)\<rparr> else st);
            st2 = (if halfTrackHeight st1 > 0
                   then
                     let a = (if posY st1 \<le> - halfTrackHeight st1
                              then st1\<lparr>posY := rnd (posY st1 + halfTrackHeight st1)\<rparr>
                              else st1);
                         b = (if posY a > 0
                              then a\<lparr>posY := rnd (posY a - halfTrackHeight a)\<rparr> else a)
                     in b
                   else st1);
            st3 = applyTransform st2
        in st3\<lparr>raf_requests := raf_requests st3 + 1\<rparr>
      else st)"

definition controls_tick_rnd :: "(rat \<Rightarrow> rat) \<Rightarrow> rat \<Rightarrow> timeline_core \<Rightarrow> timeline_core" where
  "controls_tick_rnd rnd arrowSpeed st =
     (if arrowSpeed \<noteq> 0
      then setAutoScroll False (st\<lparr>posY := rnd (posY st + arrowSpeed)\<rparr>)
      else st)"

definition frame_rnd :: "(rat \<Rightarrow> rat) \<Rightarrow> rat \<Rightarrow> timeline_core \<Rightarrow> timeline_core" where
  "frame_rnd rnd arrowSpeed st = animate_rnd rnd (controls_tick_rnd rnd arrowSpeed st)"

fun run_frames_rnd :: "(rat \<Rightarrow> rat) \<Rightarrow> rat list \<Rightarrow> timeline_core \<Rightarrow> timeline_core" where
  "run_frames_rnd rnd [] st = st"
| "run_frames_rnd rnd (a # as) st = run_frames_rnd rnd as (frame_rnd rnd a st)"

definition fractionToPosition_rnd :: "(rat \<Rightarrow> rat) \<Rightarrow> rat list \<Rightarrow> rat \<Rightarrow> rat option" where
  "fractionToPosition_rnd rnd offs fr =
     (let iL = \<lfloor>fr\<rfloor>;
          iU = min (int (length offs) - 1) (iL + 1);
          t = rnd (fr - of_int iL)
      in if 0 \<le> iL \<and> iL < int (length offs)
         then Some (- rnd (offs ! nat iL + rnd (rnd (offs ! nat iU - offs ! nat iL) * t)))
         else None)"

definition onInput_rnd :: "(rat \<Rightarrow> rat) \<Rightarrow> rat \<Rightarrow> timeline_core \<Rightarrow> timeline_core option" where
  "onInput_rnd rnd val st =
     (if length (offsets st) = 0 then Some st
      else
        let fr = rnd (rnd (1 - rnd (val / 100)) * (of_nat (length (offsets st)) - 1)) in
        map_option (\<lambda>p. setAutoScroll False (applyTransform (st\<lparr>posY := p\<rparr>)))
          (fractionToPosition_rnd rnd (offsets st) fr))"

section \<open>The invariant of the nearest-card scan\<close>

text \<open>
  Before iteration \<open>i\<close> of the scan, either nothing has been seen yet, or \<open>nearest\<close> is
  the first index among those seen whose distance \<open>best\<close> is the least.
\<close>

definition nearest_inv :: "rat list \<Rightarrow> rat \<Rightarrow> nat \<Rightarrow> nat \<Rightarrow> rat option \<Rightarrow> bool" where
  "nearest_inv offs dis i nearest best \<longleftrightarrow>
     (best = None \<and> i = 0) \<or>
     (nearest < i \<and> best = Some \<bar>dis - offs ! nearest\<bar> \<and>
      (\<forall>j<i. \<bar>dis - offs ! nearest\<bar> \<le> \<bar>dis - offs ! j\<bar>) \<and>
      (\<forall>j<nearest. \<bar>dis - offs ! nearest\<bar> < \<bar>dis - offs ! j\<bar>))"

section \<open>Duplication\<close>

lemma map_cloneNode: "map cloneNode S = S"
  by (induction S) (simp_all add: cloneNode_def)

lemma ids_match_from_doubled:
  "ids_match_from (S @ S) (length S) i"
proof (induction "length S - i" arbitrary: i)
  case 0
  then show ?case by (subst ids_match_from.simps) simp
next
  case (Suc k)
  then have lt: "i < length S" by simp
  have "k = length S - (i + 1)" using Suc.hyps(2) by simp
  then have "ids_match_from (S @ S) (length S) (i + 1)" by (rule Suc.hyps(1))
  with lt show ?case by (subst ids_match_from.simps) (simp add: nth_append)
qed

lemma isAlreadyDuplicated_doubled:
  assumes "querySelectorAll_card track = S @ S" and "S \<noteq> []"
  shows "isAlreadyDuplicated track"
proof -
  from assms(2) have "length S \<ge> 1" by (cases S) simp_all
  then have len: "\<not> length (S @ S) < 2" by simp
  have ev: "length (S @ S) mod 2 = 0" by simp
  have half: "length (S @ S) div 2 = length S" by simp
  show ?thesis
    unfolding isAlreadyDuplicated_def Let_def assms(1)
    using len ev half ids_match_from_doubled [of S 0] by simp
qed

lemma querySelectorAll_card_append:
  "querySelectorAll_card (xs @ ys) = querySelectorAll_card xs @ querySelectorAll_card ys"
  by (simp add: querySelectorAll_card_def)

lemma select_cards_is_card: "x \<in> set (select_cards e) \<Longrightarrow> is_card x"
  by (induction e rule: select_cards.induct) (auto split: if_splits)

lemma querySelectorAll_card_is_card: "x \<in> set (querySelectorAll_card ks) \<Longrightarrow> is_card x"
  by (auto simp add: querySelectorAll_card_def select_cards_is_card)

lemma select_cards_card:
  "is_card c \<Longrightarrow> select_cards c = c # querySelectorAll_card (child_nodes c)"
  by (cases c) (simp add: querySelectorAll_card_def)

lemma querySelectorAll_card_leaves:
  "\<forall>c \<in> set cs. is_card c \<and> querySelectorAll_card (child_nodes c) = [] \<Longrightarrow>
   querySelectorAll_card cs = cs"
proof (induction cs)
  case Nil
  then show ?case by (simp add: querySelectorAll_card_def)
next
  case (Cons c cs)
  then have "select_cards c = [c]" by (simp add: select_cards_card)
  moreover have "querySelectorAll_card cs = cs" using Cons by simp
  ultimately show ?case
    using querySelectorAll_card_append [of "[c]" cs] by (simp add: querySelectorAll_card_def)
qed

text \<open>
  On a track with at least one card and no card inside a card, the track after
  \<open>duplicate\<close> is recognised as duplicated and a second \<open>duplicate\<close> changes nothing; a
  single card is doubled.
\<close>

lemma duplicate_without_nesting:
  assumes "no_nested_cards track" and "querySelectorAll_card track \<noteq> []"
  shows "isAlreadyDuplicated (duplicate track) \<and> duplicate (duplicate track) = duplicate track"
proof (cases "isAlreadyDuplicated track")
  case True
  then show ?thesis by (simp add: duplicate_def Let_def)
next
  case False
  define S where "S = querySelectorAll_card track"
  have d: "duplicate track = track @ S"
    using False assms(2) by (simp add: duplicate_def Let_def map_cloneNode S_def)
  have "\<forall>c \<in> set S. is_card c \<and> querySelectorAll_card (child_nodes c) = []"
    using assms(1) unfolding no_nested_cards_def S_def
    by (auto simp add: querySelectorAll_card_is_card)
  then have "querySelectorAll_card S = S" by (rule querySelectorAll_card_leaves)
  then have "querySelectorAll_card (duplicate track) = S @ S"
    unfolding d by (simp add: querySelectorAll_card_append S_def [symmetric])
  then have dup: "isAlreadyDuplicated (duplicate track)"
    using assms(2) unfolding S_def [symmetric] by (rule isAlreadyDuplicated_doubled)
  then show ?thesis by (simp add: duplicate_def [of "duplicate track"] Let_def)
qed

lemma duplicate_single_card:
  "\<not> isAlreadyDuplicated [Element True i []] \<and>
   duplicate [Element True i []] = [Element True i [], Element True i []] \<and>
   isAlreadyDuplicated (duplicate [Element True i []])"
  by (simp add: duplicate_def isAlreadyDuplicated_def querySelectorAll_card_def cloneNode_def
      ids_match_from.simps)

text \<open>
  Claim C3, on a card inside a card. The track holds the card \<open>a\<close>, which contains the
  card \<open>b\<close>. The selection is \<open>a, b\<close>; the deep clone of \<open>a\<close> brings a copy of \<open>b\<close> with it
  and \<open>b\<close> is cloned once more, so the track has the five cards \<open>a, b, a, b, b\<close> after
  \<open>duplicate\<close>. Five is odd: the track is not recognised as duplicated, and a second
  \<open>duplicate\<close> gives twelve cards, not the same track.
\<close>

theorem duplicate_nested_not_idempotent:
  "map elem_id (querySelectorAll_card [Element True ''a'' [Element True ''b'' []]])
     = [''a'', ''b''] \<and>
   map elem_id (querySelectorAll_card (duplicate [Element True ''a'' [Element True ''b'' []]]))
     = [''a'', ''b'', ''a'', ''b'', ''b''] \<and>
   \<not> isAlreadyDuplicated (duplicate [Element True ''a'' [Element True ''b'' []]]) \<and>
   length (querySelectorAll_card
     (duplicate (duplicate [Element True ''a'' [Element True ''b'' []]]))) = 12 \<and>
   duplicate (duplicate [Element True ''a'' [Element True ''b'' []]])
     \<noteq> duplicate [Element True ''a'' [Element True ''b'' []]]"
  by code_simp

section \<open>Fields that a frame leaves alone\<close>

lemma animate_fields:
  "halfTrackHeight (animate st) = halfTrackHeight st"
  "BASE_SPEED (animate st) = BASE_SPEED st"
  "running (animate st) = running st"
  "offsets (animate st) = offsets st"
  "autoScroll (animate st) = autoScroll st"
  by (simp_all add: animate_def applyTransform_def Let_def)

lemma controls_tick_fields:
  "halfTrackHeight (controls_tick a st) = halfTrackHeight st"
  "BASE_SPEED (controls_tick a st) = BASE_SPEED st"
  "running (controls_tick a st) = running st"
  "offsets (controls_tick a st) = offsets st"
  by (simp_all add: controls_tick_def setAutoScroll_def)

lemma frame_fields:
  "halfTrackHeight (frame a st) = halfTrackHeight st"
  "BASE_SPEED (frame a st) = BASE_SPEED st"
  "running (frame a st) = running st"
  "offsets (frame a st) = offsets st"
  by (simp_all add: frame_def animate_fields controls_tick_fields)

lemma run_frames_halfTrackHeight:
  "halfTrackHeight (run_frames as st) = halfTrackHeight st"
  by (induction as arbitrary: st) (simp_all add: frame_fields)

section \<open>The wrap invariant\<close>

lemma animate_posY_interval:
  assumes "0 < halfTrackHeight st"
    and "- halfTrackHeight st < posY st" and "posY st \<le> 0"
    and "\<bar>BASE_SPEED st\<bar> < halfTrackHeight st"
  shows "- halfTrackHeight st < posY (animate st) \<and> posY (animate st) \<le> 0"
  using assms by (auto simp add: animate_def applyTransform_def Let_def)

lemma frame_posY_interval:
  assumes "0 < halfTrackHeight st"
    and "- halfTrackHeight st < posY st" and "posY st \<le> 0"
    and "\<bar>BASE_SPEED st\<bar> < halfTrackHeight st"
    and "\<bar>a\<bar> < halfTrackHeight st"
    and "running st"
  shows "- halfTrackHeight st < posY (frame a st) \<and> posY (frame a st) \<le> 0"
  using assms
  by (auto simp add: frame_def controls_tick_def setAutoScroll_def animate_def
      applyTransform_def Let_def)

lemma run_frames_posY_interval:
  assumes "0 < halfTrackHeight st"
    and "- halfTrackHeight st < posY st" and "posY st \<le> 0"
    and "\<bar>BASE_SPEED st\<bar> < halfTrackHeight st"
    and "\<forall>a \<in> set as. \<bar>a\<bar> < halfTrackHeight st"
    and "running st"
  shows "- halfTrackHeight st < posY (run_frames as st) \<and> posY (run_frames as st) \<le> 0"
  using assms
proof (induction as arbitrary: st)
  case Nil
  then show ?case by simp
next
  case (Cons a as)
  have a: "\<bar>a\<bar> < halfTrackHeight st" using Cons.prems(5) by simp
  have step: "- halfTrackHeight st < posY (frame a st) \<and> posY (frame a st) \<le> 0"
    using Cons.prems a by (intro frame_posY_interval) simp_all
  have "- halfTrackHeight (frame a st) < posY (run_frames as (frame a st)) \<and>
        posY (run_frames as (frame a st)) \<le> 0"
  proof (rule Cons.IH)
    show "0 < halfTrackHeight (frame a st)" using Cons.prems(1) by (simp add: frame_fields)
    show "- halfTrackHeight (frame a st) < posY (frame a st)"
      using step by (simp add: frame_fields)
    show "posY (frame a st) \<le> 0" using step by simp
    show "\<bar>BASE_SPEED (frame a st)\<bar> < halfTrackHeight (frame a st)"
      using Cons.prems(4) by (simp add: frame_fields)
    show "\<forall>x\<in>set as. \<bar>x\<bar> < halfTrackHeight (frame a st)"
      using Cons.prems(5) by (simp add: frame_fields)
    show "running (frame a st)" using Cons.prems(6) by (simp add: frame_fields)
  qed
  then show ?case by (simp add: frame_fields)
qed

text \<open>
  With the rounding of the source the frame keeps the position in the closed interval
  \<open>[-halfTrackHeight, 0]\<close>, for every rounding that is monotone and leaves \<open>0\<close>,
  \<open>halfTrackHeight\<close>, \<open>-halfTrackHeight\<close> and \<open>-2 * halfTrackHeight\<close> as they are.
\<close>

text \<open>The doubles nearest to \<open>1/10\<close> and \<open>9/10\<close>, and a tie that goes to the even side.\<close>

lemma fl64_examples:
  "fl64 (1 / 10) = 3602879701896397 / 2 ^ 55"
  "fl64 (9 / 10) = 8106479329266893 / 2 ^ 53"
  "fl64 (2 ^ 53 + 1) = 2 ^ 53"
  "fl64 (2 ^ 53 + 3) = 2 ^ 53 + 4"
  by code_simp+

lemma animate_rnd_fields:
  "halfTrackHeight (animate_rnd rnd st) = halfTrackHeight st"
  "BASE_SPEED (animate_rnd rnd st) = BASE_SPEED st"
  "running (animate_rnd rnd st) = running st"
  by (simp_all add: animate_rnd_def applyTransform_def Let_def)

lemma frame_rnd_fields:
  "halfTrackHeight (frame_rnd rnd a st) = halfTrackHeight st"
  "BASE_SPEED (frame_rnd rnd a st) = BASE_SPEED st"
  "running (frame_rnd rnd a st) = running st"
  by (simp_all add: frame_rnd_def animate_rnd_fields controls_tick_rnd_def setAutoScroll_def)

lemma animate_rnd_exact: "animate_rnd (\<lambda>x. x) st = animate st"
  by (simp add: animate_rnd_def animate_def)

lemma frame_rnd_exact: "frame_rnd (\<lambda>x. x) a st = frame a st"
  by (simp add: frame_rnd_def frame_def controls_tick_rnd_def controls_tick_def
      animate_rnd_exact)

lemma onInput_rnd_exact: "onInput_rnd (\<lambda>x. x) v st = onInput v st"
  by (simp add: onInput_rnd_def onInput_def fractionToPosition_rnd_def fractionToPosition_def)

lemma animate_rnd_closed_interval:
  fixes h :: rat
  assumes h: "h = halfTrackHeight st" "0 < h" and run: "running st"
    and wide: "\<And>x. - (2 * h) \<le> x \<Longrightarrow> x \<le> h \<Longrightarrow> - (2 * h) \<le> rnd x \<and> rnd x \<le> h"
    and narrow: "\<And>x. - h \<le> x \<Longrightarrow> x \<le> 0 \<Longrightarrow> - h \<le> rnd x \<and> rnd x \<le> 0"
    and lo: "- (2 * h) \<le> posY st - (if autoScroll st then BASE_SPEED st else 0)"
    and hi: "posY st - (if autoScroll st then BASE_SPEED st else 0) \<le> h"
  shows "- h \<le> posY (animate_rnd rnd st) \<and> posY (animate_rnd rnd st) \<le> 0"
proof -
  define p0 where "p0 = (if autoScroll st then rnd (posY st - BASE_SPEED st) else posY st)"
  define p1 where "p1 = (if p0 \<le> - h then rnd (p0 + h) else p0)"
  define p2 where "p2 = (if p1 > 0 then rnd (p1 - h) else p1)"
  have b0: "- (2 * h) \<le> p0 \<and> p0 \<le> h"
  proof (cases "autoScroll st")
    case True
    with lo hi have "- (2 * h) \<le> posY st - BASE_SPEED st" "posY st - BASE_SPEED st \<le> h"
      by simp_all
    then have "- (2 * h) \<le> rnd (posY st - BASE_SPEED st) \<and> rnd (posY st - BASE_SPEED st) \<le> h"
      by (rule wide)
    with True show ?thesis unfolding p0_def by simp
  next
    case False
    with lo hi show ?thesis unfolding p0_def by simp
  qed
  have b1: "- h \<le> p1 \<and> p1 \<le> h"
  proof (cases "p0 \<le> - h")
    case True
    with b0 have "- h \<le> p0 + h" "p0 + h \<le> 0" by simp_all
    then have "- h \<le> rnd (p0 + h) \<and> rnd (p0 + h) \<le> 0" by (rule narrow)
    with True h(2) show ?thesis unfolding p1_def by simp
  next
    case False
    with b0 show ?thesis unfolding p1_def by simp
  qed
  have b2: "- h \<le> p2 \<and> p2 \<le> 0"
  proof (cases "p1 > 0")
    case True
    with b1 have "- h \<le> p1 - h" "p1 - h \<le> 0" by simp_all
    then have "- h \<le> rnd (p1 - h) \<and> rnd (p1 - h) \<le> 0" by (rule narrow)
    with True show ?thesis unfolding p2_def by simp
  next
    case False
    with b1 show ?thesis unfolding p2_def by simp
  qed
  have "posY (animate_rnd rnd st) = p2"
    using run h unfolding p2_def p1_def p0_def
    by (simp add: animate_rnd_def applyTransform_def Let_def)
  with b2 show ?thesis by simp
qed

lemma frame_rnd_closed_interval:
  fixes h :: rat
  assumes h: "h = halfTrackHeight st" "0 < h" and run: "running st"
    and mono: "\<And>x y. x \<le> y \<Longrightarrow> rnd x \<le> rnd y"
    and fixed: "rnd 0 = 0" "rnd h = h" "rnd (- h) = - h" "rnd (- (2 * h)) = - (2 * h)"
    and pos: "- h \<le> posY st" "posY st \<le> 0"
    and speeds: "\<bar>BASE_SPEED st\<bar> < h" "\<bar>a\<bar> < h"
  shows "- h \<le> posY (frame_rnd rnd a st) \<and> posY (frame_rnd rnd a st) \<le> 0"
proof -
  have wide: "- (2 * h) \<le> rnd x \<and> rnd x \<le> h" if "- (2 * h) \<le> x" "x \<le> h" for x
    using mono [OF that(1)] mono [OF that(2)] fixed by simp
  have narrow: "- h \<le> rnd x \<and> rnd x \<le> 0" if "- h \<le> x" "x \<le> 0" for x
    using mono [OF that(1)] mono [OF that(2)] fixed by simp
  define st' where "st' = controls_tick_rnd rnd a st"
  have h': "h = halfTrackHeight st'" "running st'"
    using h run by (simp_all add: st'_def controls_tick_rnd_def setAutoScroll_def)
  have raw: "- (2 * h) \<le> posY st' - (if autoScroll st' then BASE_SPEED st' else 0) \<and>
             posY st' - (if autoScroll st' then BASE_SPEED st' else 0) \<le> h"
  proof (cases "a = 0")
    case True
    then have "st' = st" by (simp add: st'_def controls_tick_rnd_def)
    with pos speeds h show ?thesis by auto
  next
    case False
    then have p: "posY st' = rnd (posY st + a)" and "\<not> autoScroll st'"
      by (simp_all add: st'_def controls_tick_rnd_def setAutoScroll_def)
    moreover have "- (2 * h) \<le> posY st + a" "posY st + a \<le> h" using pos speeds by auto
    then have "- (2 * h) \<le> rnd (posY st + a) \<and> rnd (posY st + a) \<le> h" by (rule wide)
    ultimately show ?thesis by simp
  qed
  have "- h \<le> posY (animate_rnd rnd st') \<and> posY (animate_rnd rnd st') \<le> 0"
    using h'(1) h(2) h'(2) wide narrow raw
    by (intro animate_rnd_closed_interval [where h = h]) simp_all
  then show ?thesis by (simp add: frame_rnd_def st'_def)
qed

lemma run_frames_rnd_closed_interval:
  fixes h :: rat
  assumes "h = halfTrackHeight st" "0 < h" "running st"
    and mono: "\<And>x y. x \<le> y \<Longrightarrow> rnd x \<le> rnd y"
    and fixed: "rnd 0 = 0" "rnd h = h" "rnd (- h) = - h" "rnd (- (2 * h)) = - (2 * h)"
    and "- h \<le> posY st" "posY st \<le> 0"
    and "\<bar>BASE_SPEED st\<bar> < h" "\<forall>x \<in> set as. \<bar>x\<bar> < h"
  shows "- h \<le> posY (run_frames_rnd rnd as st) \<and> posY (run_frames_rnd rnd as st) \<le> 0"
  using assms(1-3,9-12)
proof (induction as arbitrary: st)
  case Nil
  then show ?case by simp
next
  case (Cons a as)
  have a: "\<bar>a\<bar> < h" using Cons.prems(7) by simp
  have step: "- h \<le> posY (frame_rnd rnd a st) \<and> posY (frame_rnd rnd a st) \<le> 0"
    using Cons.prems(1-3) mono fixed Cons.prems(4-6) a
    by (intro frame_rnd_closed_interval [where h = h]) simp_all
  have "- h \<le> posY (run_frames_rnd rnd as (frame_rnd rnd a st)) \<and>
        posY (run_frames_rnd rnd as (frame_rnd rnd a st)) \<le> 0"
  proof (rule Cons.IH)
    show "h = halfTrackHeight (frame_rnd rnd a st)"
      using Cons.prems(1) by (simp add: frame_rnd_fields)
    show "0 < h" by (rule Cons.prems(2))
    show "running (frame_rnd rnd a st)" using Cons.prems(3) by (simp add: frame_rnd_fields)
    show "- h \<le> posY (frame_rnd rnd a st)" using step by simp
    show "posY (frame_rnd rnd a st) \<le> 0" using step by simp
    show "\<bar>BASE_SPEED (frame_rnd rnd a st)\<bar> < h"
      using Cons.prems(6) by (simp add: frame_rnd_fields)
    show "\<forall>x\<in>set as. \<bar>x\<bar> < h" using Cons.prems(7) by simp
  qed
  then show ?case by simp
qed

text \<open>
  Claim C1, at a rounding boundary. The engine runs with offsets \<open>[0, 250]\<close>,
  \<open>halfTrackHeight = 420\<close> and the base speed \<open>3/4\<close>. The input handler of the slider at
  the value 90 writes the position \<open>-25 + 2^-47\<close> (the double \<open>-24.999999999999993\<close>),
  inside \<open>(-420, 0]\<close>. In the next frame the arrow speed 25 takes it to \<open>2^-47\<close>, above 0,
  and the wrap subtracts 420: the nearest double of \<open>2^-47 - 420\<close> is \<open>-420\<close>, so the frame
  ends at \<open>-halfTrackHeight\<close>, outside \<open>(-halfTrackHeight, 0]\<close>. With exact arithmetic the
  same frame from the same position ends at \<open>-420 + 2^-47\<close>, inside the interval.
\<close>

theorem frame_rounding_reaches_lower_bound:
  "map_option posY (onInput_rnd fl64 90
      (new_core\<lparr>offsets := [0, 250], halfTrackHeight := 420, running := True\<rparr>))
     = Some (- 25 + 1 / 2 ^ 47) \<and>
   map_option (\<lambda>st. posY (frame_rnd fl64 25 st)) (onInput_rnd fl64 90
      (new_core\<lparr>offsets := [0, 250], halfTrackHeight := 420, running := True\<rparr>))
     = Some (- 420) \<and>
   map_option (\<lambda>st. halfTrackHeight (frame_rnd fl64 25 st)) (onInput_rnd fl64 90
      (new_core\<lparr>offsets := [0, 250], halfTrackHeight := 420, running := True\<rparr>))
     = Some 420 \<and>
   fl64 (- 25 + 1 / 2 ^ 47) = - 25 + 1 / 2 ^ 47 \<and>
   fl64 25 = 25 \<and> fl64 420 = 420 \<and> fl64 (3 / 4) = 3 / 4 \<and>
   posY (frame 25 (new_core\<lparr>posY := - 25 + 1 / 2 ^ 47, autoScroll := False,
      offsets := [0, 250], halfTrackHeight := 420, running := True\<rparr>))
     = - 420 + 1 / 2 ^ 47"
  by code_simp

section \<open>Jump to a card\<close>

lemma wrap_below_lower: "0 < h \<Longrightarrow> - h \<le> wrap_below h v"
proof (induction h v rule: wrap_below.induct)
  case (1 h val)
  show ?case
  proof (cases "val < - h")
    case True
    with "1.prems" have "- h \<le> wrap_below h (val + h)" by (intro "1.IH") simp_all
    with True "1.prems" show ?thesis by (subst wrap_below.simps) simp
  next
    case False
    then show ?thesis by (subst wrap_below.simps) simp
  qed
qed

lemma wrap_above_upper: "0 < h \<Longrightarrow> wrap_above h v \<le> 0"
proof (induction h v rule: wrap_above.induct)
  case (1 h val)
  show ?case
  proof (cases "0 < val")
    case True
    with "1.prems" have "wrap_above h (val - h) \<le> 0" by (intro "1.IH") simp_all
    with True "1.prems" show ?thesis by (subst wrap_above.simps) simp
  next
    case False
    then show ?thesis by (subst wrap_above.simps) simp
  qed
qed

lemma wrap_above_lower: "0 < h \<Longrightarrow> - h \<le> v \<Longrightarrow> - h \<le> wrap_above h v"
proof (induction h v rule: wrap_above.induct)
  case (1 h val)
  show ?case
  proof (cases "0 < val")
    case True
    with "1.prems" have "- h \<le> wrap_above h (val - h)" by (intro "1.IH") simp_all
    with True "1.prems" show ?thesis by (subst wrap_above.simps) simp
  next
    case False
    with "1.prems" show ?thesis by (subst wrap_above.simps) simp
  qed
qed

text \<open>
  What the two loops of \<open>jumpToIndex\<close> do establish: the closed interval
  \<open>[-halfTrackHeight, 0]\<close>, and a transform equal to the position.
\<close>

lemma jumpToIndex_closed_interval:
  assumes "offsets st \<noteq> []" and "0 < halfTrackHeight st"
  shows "- halfTrackHeight st \<le> posY (jumpToIndex i st) \<and> posY (jumpToIndex i st) \<le> 0 \<and>
         transform (jumpToIndex i st) = Some (posY (jumpToIndex i st))"
  using assms
  by (simp add: jumpToIndex_def applyTransform_def Let_def wrap_above_upper
      wrap_above_lower wrap_below_lower)

text \<open>
  Claim C2, at the boundary. With offsets \<open>[0, 100, 250, 420]\<close> and \<open>halfTrackHeight = 420\<close>,
  \<open>jumpToIndex(3)\<close> leaves the position at \<open>-420\<close>, outside \<open>(-420, 0]\<close>: the first loop
  compares with \<open><\<close>. The wrap rule of the frame callback, run on that position, folds it
  to \<open>0\<close>. The same happens at index 2 of the offsets that \<open>computeOffsetsNow\<close> measures on
  a doubled track of two cards of height 420 when \<open>originalCount\<close> was never set.
\<close>

theorem jumpToIndex_boundary_not_folded:
  "posY (jumpToIndex 3 (new_core\<lparr>offsets := [0, 100, 250, 420], halfTrackHeight := 420\<rparr>))
     = - 420 \<and>
   transform (jumpToIndex 3 (new_core\<lparr>offsets := [0, 100, 250, 420], halfTrackHeight := 420\<rparr>))
     = Some (- 420) \<and>
   posY (animate (new_core\<lparr>posY := - 420, autoScroll := False, halfTrackHeight := 420,
                             running := True\<rparr>)) = 0 \<and>
   posY (jumpToIndex 2 (computeOffsetsNow
      \<lparr>track_cards = [\<lparr>card_id = ''a'', card_html = [], offsetTop = 0\<rparr>,
                      \<lparr>card_id = ''b'', card_html = [], offsetTop = 420\<rparr>,
                      \<lparr>card_id = ''a'', card_html = [], offsetTop = 840\<rparr>,
                      \<lparr>card_id = ''b'', card_html = [], offsetTop = 1260\<rparr>],
        scrollHeight = 1680\<rparr> new_core)) = - 840 \<and>
   halfTrackHeight (computeOffsetsNow
      \<lparr>track_cards = [\<lparr>card_id = ''a'', card_html = [], offsetTop = 0\<rparr>,
                      \<lparr>card_id = ''b'', card_html = [], offsetTop = 420\<rparr>,
                      \<lparr>card_id = ''a'', card_html = [], offsetTop = 840\<rparr>,
                      \<lparr>card_id = ''b'', card_html = [], offsetTop = 1260\<rparr>],
        scrollHeight = 1680\<rparr> new_core) = 840"
  by code_simp

section \<open>The 560-tick scenario\<close>

lemma animate_advance_only:
  assumes "running st" "autoScroll st" "0 < halfTrackHeight st"
    and "- halfTrackHeight st < posY st - BASE_SPEED st" and "posY st - BASE_SPEED st \<le> 0"
  shows "posY (animate st) = posY st - BASE_SPEED st"
  using assms by (simp add: animate_def applyTransform_def Let_def)

lemma animate_fold_boundary:
  assumes "running st" "autoScroll st" "0 < halfTrackHeight st"
    and "posY st - BASE_SPEED st = - halfTrackHeight st"
  shows "posY (animate st) = 0"
  using assms by (simp add: animate_def applyTransform_def Let_def)

lemma ticks_before_boundary:
  assumes "posY st = 0" "autoScroll st" "running st" "halfTrackHeight st = 420"
    and "BASE_SPEED st = 3 / 4"
  shows "n < 560 \<Longrightarrow>
    posY ((animate ^^ n) st) = - (3 / 4) * of_nat n \<and> autoScroll ((animate ^^ n) st) \<and>
    running ((animate ^^ n) st) \<and> halfTrackHeight ((animate ^^ n) st) = 420 \<and>
    BASE_SPEED ((animate ^^ n) st) = 3 / 4"
proof (induction n)
  case 0
  then show ?case using assms by simp
next
  case (Suc n)
  define s where "s = (animate ^^ n) st"
  from Suc have ih: "posY s = - (3 / 4) * of_nat n" "autoScroll s" "running s"
    "halfTrackHeight s = 420" "BASE_SPEED s = 3 / 4"
    by (simp_all add: s_def)
  from Suc.prems have "n < 559" by simp
  then have n: "(of_nat n :: rat) < 559" by (metis of_nat_less_iff of_nat_numeral)
  have "posY (animate s) = posY s - BASE_SPEED s"
    using ih n by (intro animate_advance_only) simp_all
  also have "\<dots> = - (3 / 4) * of_nat n - 3 / 4" using ih by simp
  also have "\<dots> = - (3 / 4) * of_nat (Suc n)" by (simp add: algebra_simps)
  finally have "posY (animate s) = - (3 / 4) * of_nat (Suc n)" .
  then show ?case
    using ih by (simp add: s_def [symmetric] animate_fields)
qed

lemma tick_560:
  assumes "posY st = 0" "autoScroll st" "running st" "halfTrackHeight st = 420"
    and "BASE_SPEED st = 3 / 4"
  shows "posY ((animate ^^ 560) st) = 0"
proof -
  define s where "s = (animate ^^ 559) st"
  have "559 < (560::nat)" by simp
  from ticks_before_boundary [OF assms this]
  have ih: "posY s = - (3 / 4) * of_nat 559" "autoScroll s" "running s"
    "halfTrackHeight s = 420" "BASE_SPEED s = 3 / 4"
    by (simp_all add: s_def)
  have "posY (animate s) = 0"
    using ih by (intro animate_fold_boundary) simp_all
  moreover have "(animate ^^ 560) st = animate s"
  proof -
    have "(560::nat) = Suc 559" by simp
    then show ?thesis unfolding s_def by (simp only: funpow.simps o_apply)
  qed
  ultimately show ?thesis by simp
qed

text \<open>
  Claim C4. From position 0 with auto-scroll on, \<open>halfTrackHeight = 420\<close> and base speed
  \<open>3/4\<close>, the position after \<open>n < 560\<close> ticks is \<open>-3n/4\<close> (a multiple of \<open>1/4\<close>, no
  wrap has fired) and lies strictly above \<open>-420\<close>; tick 560 reaches \<open>-420\<close>, which the
  inclusive comparison folds to \<open>0\<close>.
\<close>

theorem scenario_560_ticks:
  assumes "posY st = 0" "autoScroll st" "running st" "halfTrackHeight st = 420"
    and "BASE_SPEED st = 3 / 4"
  shows "(\<forall>n<560. posY ((animate ^^ n) st) = - (3 / 4) * of_nat n \<and>
                  - 420 < posY ((animate ^^ n) st)) \<and>
         posY ((animate ^^ 559) st) - BASE_SPEED st = - 420 \<and>
         posY ((animate ^^ 560) st) = 0"
proof (intro conjI allI impI)
  fix n :: nat
  assume n: "n < 560"
  from ticks_before_boundary [OF assms n]
  show eq: "posY ((animate ^^ n) st) = - (3 / 4) * of_nat n" by simp
  from n have "(of_nat n :: rat) < 560" by (metis of_nat_less_iff of_nat_numeral)
  then show "- 420 < posY ((animate ^^ n) st)" unfolding eq by simp
next
  have "559 < (560::nat)" by simp
  from ticks_before_boundary [OF assms this]
  have "posY ((animate ^^ 559) st) = - (3 / 4) * of_nat 559" by simp
  then show "posY ((animate ^^ 559) st) - BASE_SPEED st = - 420" using assms(5) by simp
next
  show "posY ((animate ^^ 560) st) = 0" using assms by (rule tick_560)
qed

theorem scenario_560_ticks_witness:
  "posY ((animate ^^ 560) (new_core\<lparr>halfTrackHeight := 420, running := True\<rparr>)) = 0 \<and>
   posY ((animate ^^ 559) (new_core\<lparr>halfTrackHeight := 420, running := True\<rparr>)) = - (1677 / 4)"
  using scenario_560_ticks [of "new_core\<lparr>halfTrackHeight := 420, running := True\<rparr>"]
  by (simp add: new_core_def)

section \<open>The nearest card\<close>

lemma nearest_inv_take:
  assumes "nearest_inv offs dis i nearest best" and "i < length offs"
    and "case best of None \<Rightarrow> True | Some b \<Rightarrow> \<bar>dis - offs ! i\<bar> < b"
  shows "nearest_inv offs dis (i + 1) i (Some \<bar>dis - offs ! i\<bar>)"
  using assms unfolding nearest_inv_def
  by (auto simp add: less_Suc_eq)

lemma nearest_inv_keep:
  assumes "nearest_inv offs dis i nearest best" and "i < length offs"
    and "\<not> (case best of None \<Rightarrow> True | Some b \<Rightarrow> \<bar>dis - offs ! i\<bar> < b)"
  shows "nearest_inv offs dis (i + 1) nearest best"
  using assms unfolding nearest_inv_def
  by (auto simp add: less_Suc_eq)

lemma nearest_loop_post:
  "nearest_inv offs dis i nearest best \<Longrightarrow> i \<le> length offs \<Longrightarrow> offs \<noteq> [] \<Longrightarrow>
   nearest_inv offs dis (length offs) (nearest_loop offs dis i nearest best) 
     (Some \<bar>dis - offs ! nearest_loop offs dis i nearest best\<bar>)"
proof (induction offs dis i nearest best rule: nearest_loop.induct)
  case (1 offs dis i nearest best)
  show ?case
  proof (cases "i < length offs")
    case False
    with "1.prems" have i: "i = length offs" by simp
    with "1.prems" have "i \<noteq> 0" by simp
    with "1.prems"(1) i
    have "nearest_inv offs dis (length offs) nearest (Some \<bar>dis - offs ! nearest\<bar>)"
      unfolding nearest_inv_def by auto
    with False show ?thesis by (subst (1 2) nearest_loop.simps) simp
  next
    case True
    show ?thesis
    proof (cases "case best of None \<Rightarrow> True | Some b \<Rightarrow> \<bar>dis - offs ! i\<bar> < b")
      case c: True
      have eq: "nearest_loop offs dis i nearest best =
                nearest_loop offs dis (i + 1) i (Some \<bar>dis - offs ! i\<bar>)"
        using True c by (subst nearest_loop.simps) (simp add: Let_def)
      show ?thesis unfolding eq
        using True c "1.prems" nearest_inv_take [OF "1.prems"(1) True c]
        by (intro "1.IH"(1)) simp_all
    next
      case c: False
      have eq: "nearest_loop offs dis i nearest best =
                nearest_loop offs dis (i + 1) nearest best"
        using True c by (subst nearest_loop.simps) (simp add: Let_def)
      show ?thesis unfolding eq
        using True c "1.prems" nearest_inv_keep [OF "1.prems"(1) True c]
        by (intro "1.IH"(2)) simp_all
    qed
  qed
qed

text \<open>
  Claim C5. On a non-empty offsets list \<open>nearestCardIndex\<close> returns an index of the list
  whose distance \<open>|abs(posY) - offsets[i]|\<close> is the least, and every lower index has a
  strictly larger distance (the first of the nearest wins); with offsets
  \<open>[0, 50, 140, 300]\<close> and position \<open>-145\<close> it returns 2.
\<close>

theorem nearestCardIndex_minimal:
  "(offsets st \<noteq> [] \<longrightarrow>
      nearestCardIndex st < length (offsets st) \<and>
      (\<forall>j<length (offsets st).
         \<bar>\<bar>posY st\<bar> - offsets st ! nearestCardIndex st\<bar> \<le> \<bar>\<bar>posY st\<bar> - offsets st ! j\<bar>) \<and>
      (\<forall>j<nearestCardIndex st.
         \<bar>\<bar>posY st\<bar> - offsets st ! nearestCardIndex st\<bar> < \<bar>\<bar>posY st\<bar> - offsets st ! j\<bar>)) \<and>
   nearestCardIndex (st\<lparr>offsets := [0, 50, 140, 300], posY := - 145\<rparr>) = 2"
proof (intro conjI impI)
  assume ne: "offsets st \<noteq> []"
  have "nearest_inv (offsets st) \<bar>posY st\<bar> 0 0 None" by (simp add: nearest_inv_def)
  then have "nearest_inv (offsets st) \<bar>posY st\<bar> (length (offsets st)) (nearestCardIndex st)
               (Some \<bar>\<bar>posY st\<bar> - offsets st ! nearestCardIndex st\<bar>)"
    unfolding nearestCardIndex_def using ne
    by (simp add: nearest_loop_post)
  with ne have post:
    "nearestCardIndex st < length (offsets st) \<and>
     (\<forall>j<length (offsets st).
        \<bar>\<bar>posY st\<bar> - offsets st ! nearestCardIndex st\<bar> \<le> \<bar>\<bar>posY st\<bar> - offsets st ! j\<bar>) \<and>
     (\<forall>j<nearestCardIndex st.
        \<bar>\<bar>posY st\<bar> - offsets st ! nearestCardIndex st\<bar> < \<bar>\<bar>posY st\<bar> - offsets st ! j\<bar>)"
    unfolding nearest_inv_def by simp
  show "nearestCardIndex st < length (offsets st)" using post by simp
  show "\<forall>j<length (offsets st).
         \<bar>\<bar>posY st\<bar> - offsets st ! nearestCardIndex st\<bar> \<le> \<bar>\<bar>posY st\<bar> - offsets st ! j\<bar>"
    using post by simp
  show "\<forall>j<nearestCardIndex st.
         \<bar>\<bar>posY st\<bar> - offsets st ! nearestCardIndex st\<bar> < \<bar>\<bar>posY st\<bar> - offsets st ! j\<bar>"
    using post by simp
next
  show "nearestCardIndex (st\<lparr>offsets := [0, 50, 140, 300], posY := - 145\<rparr>) = 2"
    by (simp add: nearestCardIndex_def nearest_loop.simps)
qed

theorem nearestCardIndex_minimal_witness:
  "offsets (new_core\<lparr>offsets := [0, 50, 50], posY := - 50\<rparr>) \<noteq> [] \<and>
   nearestCardIndex (new_core\<lparr>offsets := [0, 50, 50], posY := - 50\<rparr>) = 1 \<and>
   nearestCardIndex (new_core\<lparr>offsets := [0, 50, 50], posY := - 50\<rparr>)
     < length (offsets (new_core\<lparr>offsets := [0, 50, 50], posY := - 50\<rparr>))"
proof -
  have k: "nearestCardIndex (new_core\<lparr>offsets := [0, 50, 50], posY := - 50\<rparr>) = 1"
    by (simp add: nearestCardIndex_def nearest_loop.simps)
  show ?thesis
    using nearestCardIndex_minimal [of "new_core\<lparr>offsets := [0, 50, 50], posY := - 50\<rparr>"] k
    by simp
qed

section \<open>Offsets\<close>

lemma computeOffsetsNow_offsets:
  assumes "track_cards tr \<noteq> []"
  shows "offsets (computeOffsetsNow tr st) =
         map (\<lambda>x. offsetTop x - offsetTop (track_cards tr ! 0))
           (take (if originalCount st \<noteq> 0 then originalCount st else length (track_cards tr))
              (track_cards tr))"
proof -
  obtain c cs where all: "track_cards tr = c # cs"
    using assms by (cases "track_cards tr") auto
  define k where "k = (if originalCount st \<noteq> 0 then originalCount st else length (track_cards tr))"
  have "0 < k" using assms by (simp add: k_def)
  then obtain k' where k': "k = Suc k'" by (cases k) auto
  have "offsets (computeOffsetsNow tr st) =
        map (\<lambda>x. offsetTop x - offsetTop c) (take k (track_cards tr))"
    unfolding computeOffsetsNow_def Let_def k_def [symmetric] using all k' by simp
  then show ?thesis unfolding k_def using all by simp
qed

text \<open>
  Claim C6. After \<open>computeOffsetsNow\<close> on a track with at least one card, the offsets are
  those of the original cards (the first \<open>originalCount\<close> cards, or all of them when the
  count is 0), \<open>offsets[i]\<close> is the top of card \<open>i\<close> minus the top of card 0, \<open>offsets[0]\<close>
  is 0, and the offsets are non-decreasing when the card tops are.
\<close>

theorem computeOffsetsNow_relative_tops:
  assumes "track_cards tr \<noteq> []"
  shows "length (offsets (computeOffsetsNow tr st)) =
           (if originalCount st \<noteq> 0 then min (originalCount st) (length (track_cards tr))
            else length (track_cards tr)) \<and>
         (\<forall>i<length (offsets (computeOffsetsNow tr st)).
            offsets (computeOffsetsNow tr st) ! i =
            offsetTop (track_cards tr ! i) - offsetTop (track_cards tr ! 0)) \<and>
         offsets (computeOffsetsNow tr st) \<noteq> [] \<and>
         offsets (computeOffsetsNow tr st) ! 0 = 0 \<and>
         ((\<forall>i. i + 1 < length (track_cards tr) \<longrightarrow>
              offsetTop (track_cards tr ! i) \<le> offsetTop (track_cards tr ! (i + 1))) \<longrightarrow>
          (\<forall>i. i + 1 < length (offsets (computeOffsetsNow tr st)) \<longrightarrow>
              offsets (computeOffsetsNow tr st) ! i \<le> offsets (computeOffsetsNow tr st) ! (i + 1)))"
proof -
  define offs where "offs = offsets (computeOffsetsNow tr st)"
  define k where "k = (if originalCount st \<noteq> 0 then originalCount st else length (track_cards tr))"
  have k: "0 < k" using assms by (simp add: k_def)
  have offs: "offs = map (\<lambda>x. offsetTop x - offsetTop (track_cards tr ! 0))
                       (take k (track_cards tr))"
    unfolding offs_def k_def using assms by (rule computeOffsetsNow_offsets)
  have len: "length offs = min k (length (track_cards tr))"
    unfolding offs by (simp add: min.commute)
  have len': "length offs =
           (if originalCount st \<noteq> 0 then min (originalCount st) (length (track_cards tr))
            else length (track_cards tr))"
    unfolding len k_def by simp
  have nth: "offs ! i = offsetTop (track_cards tr ! i) - offsetTop (track_cards tr ! 0)"
    if "i < length offs" for i
    using that unfolding offs by simp
  have pos: "0 < length offs" using k assms unfolding len by simp
  then have ne: "offs \<noteq> []" by simp
  have zero: "offs ! 0 = 0" using nth [OF pos] by simp
  have mono: "offs ! i \<le> offs ! (i + 1)"
    if tops: "\<forall>i. i + 1 < length (track_cards tr) \<longrightarrow>
              offsetTop (track_cards tr ! i) \<le> offsetTop (track_cards tr ! (i + 1))"
      and i: "i + 1 < length offs" for i
  proof -
    from i have "i + 1 < length (track_cards tr)" unfolding len by simp
    with tops have "offsetTop (track_cards tr ! i) \<le> offsetTop (track_cards tr ! (i + 1))"
      by blast
    moreover from i have "i < length offs" by simp
    ultimately show ?thesis using nth [of i] nth [OF i] by simp
  qed
  show ?thesis
    unfolding offs_def [symmetric] using len' nth ne zero mono by blast
qed

theorem computeOffsetsNow_relative_tops_witness:
  "offsets (computeOffsetsNow
      \<lparr>track_cards = [\<lparr>card_id = ''a'', card_html = [], offsetTop = 12\<rparr>,
                      \<lparr>card_id = ''b'', card_html = [], offsetTop = 112\<rparr>,
                      \<lparr>card_id = ''a'', card_html = [], offsetTop = 262\<rparr>,
                      \<lparr>card_id = ''b'', card_html = [], offsetTop = 362\<rparr>],
        scrollHeight = 500\<rparr> (new_core\<lparr>originalCount := 2\<rparr>)) ! 1 = 100 \<and>
   length (offsets (computeOffsetsNow
      \<lparr>track_cards = [\<lparr>card_id = ''a'', card_html = [], offsetTop = 12\<rparr>,
                      \<lparr>card_id = ''b'', card_html = [], offsetTop = 112\<rparr>,
                      \<lparr>card_id = ''a'', card_html = [], offsetTop = 262\<rparr>,
                      \<lparr>card_id = ''b'', card_html = [], offsetTop = 362\<rparr>],
        scrollHeight = 500\<rparr> (new_core\<lparr>originalCount := 2\<rparr>))) = 2"
proof -
  let ?tr = "\<lparr>track_cards = [\<lparr>card_id = ''a'', card_html = [], offsetTop = 12\<rparr>,
                      \<lparr>card_id = ''b'', card_html = [], offsetTop = 112\<rparr>,
                      \<lparr>card_id = ''a'', card_html = [], offsetTop = 262\<rparr>,
                      \<lparr>card_id = ''b'', card_html = [], offsetTop = 362\<rparr>],
        scrollHeight = 500\<rparr>"
  let ?st = "new_core\<lparr>originalCount := 2\<rparr>"
  have ne: "track_cards ?tr \<noteq> []" by simp
  have len: "length (offsets (computeOffsetsNow ?tr ?st)) = 2"
    using computeOffsetsNow_relative_tops [OF ne, of ?st] by (simp add: new_core_def)
  have "\<forall>i<length (offsets (computeOffsetsNow ?tr ?st)).
            offsets (computeOffsetsNow ?tr ?st) ! i =
            offsetTop (track_cards ?tr ! i) - offsetTop (track_cards ?tr ! 0)"
    using computeOffsetsNow_relative_tops [OF ne, of ?st] by blast
  then have "offsets (computeOffsetsNow ?tr ?st) ! 1 =
            offsetTop (track_cards ?tr ! 1) - offsetTop (track_cards ?tr ! 0)"
    unfolding len by simp
  then show ?thesis using len by simp
qed

section \<open>Round trip through the fractional index\<close>







section \<open>No cards, and indices out of range\<close>

lemma clamp_index_cases:
  assumes "0 < n"
  shows "clamp_index n i < n"
    and "i < 0 \<Longrightarrow> clamp_index n i = 0"
    and "int n \<le> i \<Longrightarrow> clamp_index n i = n - 1"
    and "0 \<le> i \<Longrightarrow> i < int n \<Longrightarrow> clamp_index n i = nat i"
  using assms by (auto simp add: clamp_index_def)

text \<open>
  Claim C8. With an empty offsets list \<open>nearestCardIndex\<close> returns 0, \<open>posYForIndex\<close>
  returns 0 and \<open>jumpToIndex\<close> changes nothing, for every argument; \<open>computeOffsetsNow\<close> on
  a track without cards gives empty offsets, and the three operations are then neutral.
  On a non-empty offsets list, \<open>jumpToIndex\<close> and \<open>posYForIndex\<close> read the offset at the
  index clamped into \<open>[0, length - 1]\<close>: index 0 for a negative argument, the last index
  for one that is too large, the argument itself when it is in range.
\<close>

theorem degenerate_input_neutral:
  "(offsets st = [] \<longrightarrow>
      nearestCardIndex st = 0 \<and> posYForIndex i st = 0 \<and> jumpToIndex i st = st) \<and>
   (track_cards tr = [] \<longrightarrow>
      offsets (computeOffsetsNow tr st) = [] \<and>
      cards (computeOffsetsNow tr st) = [] \<and>
      originalCount (computeOffsetsNow tr st) = 0 \<and>
      nearestCardIndex (computeOffsetsNow tr st) = 0 \<and>
      posYForIndex i (computeOffsetsNow tr st) = 0 \<and>
      jumpToIndex i (computeOffsetsNow tr st) = computeOffsetsNow tr st) \<and>
   (offsets st \<noteq> [] \<longrightarrow>
      clamp_index (length (offsets st)) i < length (offsets st) \<and>
      posYForIndex i st = - (offsets st ! clamp_index (length (offsets st)) i) \<and>
      (i < 0 \<longrightarrow>
         clamp_index (length (offsets st)) i = 0 \<and>
         jumpToIndex i st = jumpToIndex 0 st \<and> posYForIndex i st = posYForIndex 0 st) \<and>
      (int (length (offsets st)) \<le> i \<longrightarrow>
         clamp_index (length (offsets st)) i = length (offsets st) - 1 \<and>
         jumpToIndex i st = jumpToIndex (int (length (offsets st)) - 1) st \<and>
         posYForIndex i st = posYForIndex (int (length (offsets st)) - 1) st) \<and>
      (0 \<le> i \<and> i < int (length (offsets st)) \<longrightarrow>
         clamp_index (length (offsets st)) i = nat i))"
proof (intro conjI impI)
  assume "offsets st = []"
  then show "nearestCardIndex st = 0" "posYForIndex i st = 0" "jumpToIndex i st = st"
    by (simp_all add: nearestCardIndex_def posYForIndex_def jumpToIndex_def)
next
  assume "track_cards tr = []"
  then have e: "offsets (computeOffsetsNow tr st) = []"
    by (simp add: computeOffsetsNow_def)
  show "offsets (computeOffsetsNow tr st) = []" by (rule e)
  show "cards (computeOffsetsNow tr st) = []" "originalCount (computeOffsetsNow tr st) = 0"
    using \<open>track_cards tr = []\<close> by (simp_all add: computeOffsetsNow_def)
  show "nearestCardIndex (computeOffsetsNow tr st) = 0"
    "posYForIndex i (computeOffsetsNow tr st) = 0"
    "jumpToIndex i (computeOffsetsNow tr st) = computeOffsetsNow tr st"
    using e by (simp_all add: nearestCardIndex_def posYForIndex_def jumpToIndex_def)
next
  assume ne: "offsets st \<noteq> []"
  then have n: "0 < length (offsets st)" by simp
  show "clamp_index (length (offsets st)) i < length (offsets st)"
    using n by (rule clamp_index_cases(1))
  show "posYForIndex i st = - (offsets st ! clamp_index (length (offsets st)) i)"
    using ne by (simp add: posYForIndex_def)
  {
    assume neg: "i < 0"
    have c: "clamp_index (length (offsets st)) i = clamp_index (length (offsets st)) 0"
      using n neg by (simp add: clamp_index_def)
    show "clamp_index (length (offsets st)) i = 0"
      using n neg by (rule clamp_index_cases(2))
    show "jumpToIndex i st = jumpToIndex 0 st" by (simp add: jumpToIndex_def c)
    show "posYForIndex i st = posYForIndex 0 st" by (simp add: posYForIndex_def c)
  }
  {
    assume big: "int (length (offsets st)) \<le> i"
    have c: "clamp_index (length (offsets st)) i =
             clamp_index (length (offsets st)) (int (length (offsets st)) - 1)"
      using n big by (simp add: clamp_index_def)
    show "clamp_index (length (offsets st)) i = length (offsets st) - 1"
      using n big by (rule clamp_index_cases(3))
    show "jumpToIndex i st = jumpToIndex (int (length (offsets st)) - 1) st"
      by (simp add: jumpToIndex_def c)
    show "posYForIndex i st = posYForIndex (int (length (offsets st)) - 1) st"
      by (simp add: posYForIndex_def c)
  }
  {
    assume "0 \<le> i \<and> i < int (length (offsets st))"
    then show "clamp_index (length (offsets st)) i = nat i"
      using n by (simp add: clamp_index_cases(4))
  }
qed

theorem degenerate_input_neutral_witness:
  "nearestCardIndex new_core = 0 \<and> posYForIndex 7 new_core = 0 \<and>
   jumpToIndex 7 new_core = new_core \<and>
   offsets (computeOffsetsNow \<lparr>track_cards = [], scrollHeight = 0\<rparr> new_core) = [] \<and>
   jumpToIndex 7 (new_core\<lparr>offsets := [0, 100, 250]\<rparr>) =
     jumpToIndex 2 (new_core\<lparr>offsets := [0, 100, 250]\<rparr>) \<and>
   posYForIndex (- 3) (new_core\<lparr>offsets := [0, 100, 250]\<rparr>) = 0"
proof -
  have a: "offsets new_core = []" by (simp add: new_core_def)
  have b: "track_cards \<lparr>track_cards = [], scrollHeight = 0\<rparr> = []" by simp
  have c: "offsets (new_core\<lparr>offsets := [0, 100, 250]\<rparr>) \<noteq> []" by simp
  have d: "posYForIndex 0 (new_core\<lparr>offsets := [0, 100, 250]\<rparr>) = 0"
    by (simp add: posYForIndex_def clamp_index_def)
  show ?thesis
    using degenerate_input_neutral [of new_core 7 "\<lparr>track_cards = [], scrollHeight = 0\<rparr>"]
      degenerate_input_neutral [of "new_core\<lparr>offsets := [0, 100, 250]\<rparr>" 7 "\<lparr>track_cards = [], scrollHeight = 0\<rparr>"]
      degenerate_input_neutral [of "new_core\<lparr>offsets := [0, 100, 250]\<rparr>" "- 3" "\<lparr>track_cards = [], scrollHeight = 0\<rparr>"]
      a b c d
    by simp
qed

section \<open>A jump after a tick\<close>

lemma jumpToIndex_posY_independent:
  "offsets st \<noteq> [] \<Longrightarrow> halfTrackHeight st' = halfTrackHeight st \<Longrightarrow>
   offsets st' = offsets st \<Longrightarrow>
   posY (jumpToIndex i st') = posY (jumpToIndex i st) \<and>
   transform (jumpToIndex i st') = transform (jumpToIndex i st)"
  by (simp add: jumpToIndex_def applyTransform_def Let_def)

lemma jumpToIndex_transform:
  "offsets st \<noteq> [] \<Longrightarrow> transform (jumpToIndex i st) = Some (posY (jumpToIndex i st))"
  by (simp add: jumpToIndex_def applyTransform_def Let_def)

text \<open>
  Claim C9. On a non-empty offsets list, a tick (the frame callback alone, or a whole
  frame with an arrow speed) followed by \<open>jumpToIndex(i)\<close> leaves the position and the
  transform that \<open>jumpToIndex(i)\<close> alone produces; the jump does not read the position
  it overwrites.
\<close>

theorem jump_after_tick_wins:
  assumes "offsets st \<noteq> []"
  shows "posY (jumpToIndex i (animate st)) = posY (jumpToIndex i st) \<and>
         transform (jumpToIndex i (animate st)) = transform (jumpToIndex i st) \<and>
         posY (jumpToIndex i (frame a st)) = posY (jumpToIndex i st) \<and>
         transform (jumpToIndex i (frame a st)) = transform (jumpToIndex i st) \<and>
         posY (jumpToIndex i (st\<lparr>posY := p\<rparr>)) = posY (jumpToIndex i st) \<and>
         transform (jumpToIndex i (animate st)) = Some (posY (jumpToIndex i st))"
proof -
  have 1: "posY (jumpToIndex i (animate st)) = posY (jumpToIndex i st) \<and>
           transform (jumpToIndex i (animate st)) = transform (jumpToIndex i st)"
    using assms by (rule jumpToIndex_posY_independent) (simp_all add: animate_fields)
  have 2: "posY (jumpToIndex i (frame a st)) = posY (jumpToIndex i st) \<and>
           transform (jumpToIndex i (frame a st)) = transform (jumpToIndex i st)"
    using assms by (rule jumpToIndex_posY_independent) (simp_all add: frame_fields)
  have 3: "posY (jumpToIndex i (st\<lparr>posY := p\<rparr>)) = posY (jumpToIndex i st) \<and>
           transform (jumpToIndex i (st\<lparr>posY := p\<rparr>)) = transform (jumpToIndex i st)"
    using assms by (rule jumpToIndex_posY_independent) simp_all
  have 4: "transform (jumpToIndex i st) = Some (posY (jumpToIndex i st))"
    using assms by (rule jumpToIndex_transform)
  show ?thesis
  proof (intro conjI)
    show "posY (jumpToIndex i (animate st)) = posY (jumpToIndex i st)" using 1 by simp
    show "transform (jumpToIndex i (animate st)) = transform (jumpToIndex i st)" using 1 by simp
    show "posY (jumpToIndex i (frame a st)) = posY (jumpToIndex i st)" using 2 by simp
    show "transform (jumpToIndex i (frame a st)) = transform (jumpToIndex i st)" using 2 by simp
    show "posY (jumpToIndex i (st\<lparr>posY := p\<rparr>)) = posY (jumpToIndex i st)" using 3 by simp
    show "transform (jumpToIndex i (animate st)) = Some (posY (jumpToIndex i st))"
      using 1 4 by simp
  qed
qed

theorem jump_after_tick_wins_witness:
  "posY (jumpToIndex 1 (animate (new_core\<lparr>offsets := [0, 100, 250], halfTrackHeight := 420,
       running := True\<rparr>))) = - 100 \<and>
   posY (animate (new_core\<lparr>offsets := [0, 100, 250], halfTrackHeight := 420,
       running := True\<rparr>)) = - (3 / 4)"
proof -
  have "posY (jumpToIndex 1 (new_core\<lparr>offsets := [0, 100, 250], halfTrackHeight := 420,
       running := True\<rparr>)) = - 100"
    by (simp add: jumpToIndex_def new_core_def clamp_index_def applyTransform_def
        wrap_below.simps wrap_above.simps)
  moreover have "posY (animate (new_core\<lparr>offsets := [0, 100, 250], halfTrackHeight := 420,
       running := True\<rparr>)) = - (3 / 4)"
    by (simp add: animate_def new_core_def applyTransform_def)
  ultimately show ?thesis
    using jump_after_tick_wins [of "new_core\<lparr>offsets := [0, 100, 250], halfTrackHeight := 420,
       running := True\<rparr>" 1 0 0]
    by simp
qed

section \<open>A tick of a stopped engine\<close>

text \<open>
  Claim C10. When \<open>_running\<close> is false the frame callback returns the state as it is:
  position, auto-scroll flag, offsets, original count, half track height and transform
  are unchanged and no frame is requested; so it is after \<open>stop()\<close>.
\<close>

theorem animate_stopped_noop:
  "(\<not> running st \<longrightarrow> animate st = st) \<and> animate (stop st) = stop st \<and>
   raf_requests (animate (stop st)) = raf_requests st"
  by (simp add: animate_def stop_def)

theorem animate_stopped_noop_witness:
  "\<not> running new_core \<and> animate new_core = new_core \<and>
   animate (animate (stop (new_core\<lparr>running := True\<rparr>))) = stop (new_core\<lparr>running := True\<rparr>)"
  using animate_stopped_noop [of new_core] animate_stopped_noop [of "new_core\<lparr>running := True\<rparr>"]
  by (simp add: new_core_def)

end
